theory Spec2Isabelle
  imports Complex_Main "HOL-Library.Log_Nat"
begin

section \<open>The multiplicative-to-additive protocol of \<open>mta.py\<close>\<close>

text \<open>
  A shallow embedding of \<open>src/mta.py\<close>: the sign sampler \<open>sample_t\<close>, the classes
  \<open>Player\<close>, \<open>Sender\<close> and \<open>Receiver\<close>, and the protocol runner \<open>play\<close>.
  Python's integers are \<open>int\<close>, its lists are HOL lists, every \<open>raise\<close> is a value
  \<open>Inl e\<close> of the result type \<open>error + 'a\<close>, and the random source is an explicit
  tape that every sampling function takes and returns. A second section runs the same
  statements with their effects: list objects in a store, and a log of the queries.
\<close>

subsection \<open>Errors\<close>

text \<open>
  The source raises \<open>ValueError\<close> with five different messages; the constructors below
  name them as the specification's error taxonomy does:
  \<^item> \<open>InvalidModulus\<close>: \<open>ValueError("q must be prime")\<close>;
  \<^item> \<open>SecretOutOfRange\<close>: \<open>ValueError("secret should be smaller than q")\<close>;
  \<^item> \<open>IndexOutOfRange\<close>: \<open>ValueError("i is out of range")\<close>;
  \<^item> \<open>InvalidSign\<close>: \<open>ValueError("t must be 1 or -1")\<close>;
  \<^item> \<open>InvalidPairing\<close>: \<open>ValueError("receiver and sender q don't match")\<close>.
  The other three are raised by the host language, not by a \<open>raise\<close> of the source:
  \<open>EmptyRange\<close> by \<open>randrange\<close> on a bound that is not positive, \<open>IndexError\<close> by a
  list subscript out of range, \<open>ZeroDivisionError\<close> by \<open>%\<close> with modulus zero.
\<close>

datatype error =
    InvalidModulus
  | SecretOutOfRange
  | IndexOutOfRange
  | InvalidSign
  | InvalidPairing
  | EmptyRange
  | IndexError
  | ZeroDivisionError

text \<open>Sequencing of computations that may raise: the first error ends the computation.\<close>

definition ebind :: "error + 'a \<Rightarrow> ('a \<Rightarrow> error + 'b) \<Rightarrow> error + 'b" where
  "ebind m f = (case m of Inl e \<Rightarrow> Inl e | Inr x \<Rightarrow> f x)"

subsection \<open>Host operations: subscripts, remainder, the random source\<close>

text \<open>
  \<open>xs[i]\<close> of Python: a negative index counts from the end of the list, and an index
  outside \<open>[-len(xs), len(xs))\<close> raises \<open>IndexError\<close>.
\<close>

definition py_index :: "'a list \<Rightarrow> int \<Rightarrow> error + 'a" where
  "py_index xs i =
     (let len = int (length xs); j = (if i < 0 then i + len else i)
      in if 0 \<le> j \<and> j < len then Inr (xs ! nat j) else Inl IndexError)"

text \<open>\<open>xs[i] = x\<close> of Python, with the same treatment of the index.\<close>

definition py_setitem :: "'a list \<Rightarrow> int \<Rightarrow> 'a \<Rightarrow> error + 'a list" where
  "py_setitem xs i x =
     (let len = int (length xs); j = (if i < 0 then i + len else i)
      in if 0 \<le> j \<and> j < len then Inr (xs[nat j := x]) else Inl IndexError)"

text \<open>
  \<open>a % m\<close> of Python on integers: the result has the sign of \<open>m\<close>, as \<open>mod\<close> on \<open>int\<close>
  has, and \<open>m = 0\<close> raises.
\<close>

definition py_mod :: "int \<Rightarrow> int \<Rightarrow> error + int" where
  "py_mod a m = (if m = 0 then Inl ZeroDivisionError else Inr (a mod m))"

text \<open>
  The random source is a tape of raw draws: \<open>g i\<close> is the \<open>i\<close>-th integer the source will
  deliver. \<open>randrange(m)\<close> consumes one draw and returns an integer of \<open>[0, m)\<close>; on an
  empty range it raises. Reducing the raw draw modulo \<open>m\<close> reaches every value of
  \<open>[0, m)\<close> (lemmas \<open>randrange_any\<close> and \<open>sample_list_randrange_any\<close> below), so a
  statement for all tapes is a statement for every outcome of the sampling.
\<close>

type_synonym rng = "nat \<Rightarrow> int"

definition randrange :: "int \<Rightarrow> rng \<Rightarrow> error + (int \<times> rng)" where
  "randrange m g =
     (if m \<le> 0 then Inl EmptyRange else Inr (g 0 mod m, \<lambda>i. g (Suc i)))"

text \<open>
  A list comprehension \<open>[f() for _ in range(m)]\<close> whose body draws from the random
  source: \<open>m\<close> draws in order, the tape threaded through.
\<close>

fun sample_list :: "(rng \<Rightarrow> error + (int \<times> rng)) \<Rightarrow> nat \<Rightarrow> rng \<Rightarrow> error + (int list \<times> rng)" where
  "sample_list f 0 g = Inr ([], g)"
| "sample_list f (Suc m) g =
     ebind (f g) (\<lambda>(x, g').
     ebind (sample_list f m g') (\<lambda>(xs, g''). Inr (x # xs, g'')))"

text \<open>
  A list comprehension \<open>[f(x) for x in xs]\<close> whose body may raise: the elements are
  computed in order and the first error ends the comprehension.
\<close>

fun collect :: "('a \<Rightarrow> error + 'b) \<Rightarrow> 'a list \<Rightarrow> error + 'b list" where
  "collect f [] = Inr []"
| "collect f (x # xs) =
     ebind (f x) (\<lambda>y. ebind (collect f xs) (\<lambda>ys. Inr (y # ys)))"

text \<open>
  \<open>sum(map(lambda x, y: x * y, xs, ys))\<close>: \<open>map\<close> over two lists stops at the end of the
  shorter one, as \<open>zip\<close> does.
\<close>

definition dot :: "int list \<Rightarrow> int list \<Rightarrow> int" where
  "dot xs ys = sum_list (map2 (\<lambda>x y. x * y) xs ys)"

subsection \<open>\<open>sample_t\<close>\<close>

text \<open>
  \<open>randrange(100) % 2 == True\<close>: \<open>True\<close> equals the integer \<open>1\<close> in Python, so the
  branch is taken exactly when the remainder is \<open>1\<close>.
\<close>

definition sample_t :: "rng \<Rightarrow> error + (int \<times> rng)" where
  "sample_t g =
     ebind (randrange 100 g) (\<lambda>(r, g').
     if r mod 2 = 1 then Inr (1, g') else Inr (- 1, g'))"

subsection \<open>\<open>Player\<close>\<close>

text \<open>The security parameter, a global of the module.\<close>

definition k :: int where
  "k = 512"

text \<open>
  \<open>ZZ(q).is_prime()\<close> is the primality test of the host's integer library: \<open>q\<close> is
  prime when it is greater than one and no integer strictly between one and \<open>q\<close>
  divides it.
\<close>

definition is_prime :: "int \<Rightarrow> bool" where
  "is_prime q = (1 < q \<and> (\<forall>d \<in> {2..<q}. \<not> d dvd q))"

text \<open>
  The fields of the three classes. The properties \<open>q\<close>, \<open>n\<close>, \<open>delta\<close> and \<open>t\<close> of the
  source return the private fields as they are, so the embedding has one selector for
  each: \<open>q_val\<close>, \<open>n_val\<close>, \<open>delta\<close> and \<open>t_val\<close> (an identifier of Isabelle cannot
  end with an underscore, and a one-letter constant would capture the variables of
  every statement).
\<close>

record player =
  secret :: int
  q_val :: int
  n_val :: int

record sender = player +
  delta :: "int list"

record receiver = player +
  t_val :: "int list"

text \<open>
  \<open>Player.__init__\<close>: the modulus is checked first, then the secret, then
  \<open>n = ceil(log(q, 2)) + k\<close>; \<open>ceillog2\<close> is \<open>\<lceil>log 2 q\<rceil>\<close> on the naturals
  (\<open>HOL-Library.Log_Nat\<close>), and \<open>q\<close> is positive where it is used.
\<close>

definition Player_init :: "int \<Rightarrow> int \<Rightarrow> error + player" where
  "Player_init s q =
     (if \<not> is_prime q then Inl InvalidModulus
      else if s \<ge> q then Inl SecretOutOfRange
      else Inr \<lparr>secret = s, q_val = q, n_val = int (ceillog2 (nat q)) + k\<rparr>)"

subsection \<open>\<open>Sender\<close>\<close>

definition Sender_init :: "int \<Rightarrow> int \<Rightarrow> rng \<Rightarrow> error + (sender \<times> rng)" where
  "Sender_init a q g =
     ebind (Player_init a q) (\<lambda>p.
     ebind (sample_list (randrange q) (nat (n_val p)) g) (\<lambda>(d, g').
     Inr (\<lparr>secret = secret p, q_val = q_val p, n_val = n_val p, delta = d\<rparr>, g')))"

text \<open>
  \<open>Sender.ot\<close>: the index is compared with \<open>len(self.delta)\<close> from above only, then the
  sign is checked, then the mask is read with Python's subscript.
\<close>

definition ot :: "sender \<Rightarrow> int \<Rightarrow> int \<Rightarrow> error + int" where
  "ot s i t =
     (if i \<ge> int (length (delta s)) then Inl IndexOutOfRange
      else if t \<noteq> 1 \<and> t \<noteq> - 1 then Inl InvalidSign
      else ebind (py_index (delta s) i) (\<lambda>d. py_mod (secret s * t + d) (q_val s)))"

subsection \<open>\<open>Receiver\<close>\<close>

definition Receiver_init :: "int \<Rightarrow> int \<Rightarrow> rng \<Rightarrow> error + (receiver \<times> rng)" where
  "Receiver_init b q g =
     ebind (Player_init b q) (\<lambda>p.
     ebind (sample_list sample_t (nat (n_val p)) g) (\<lambda>(ts, g').
     Inr (\<lparr>secret = secret p, q_val = q_val p, n_val = n_val p, t_val = ts\<rparr>, g')))"

text \<open>
  \<open>Receiver.v\<close>: a fresh list of \<open>n\<close> draws, the distance \<open>targ_b\<close> of its inner product
  with \<open>t\<close> from the secret, and one position \<open>rnd\<close> adjusted by it, in two assignments
  as in the source.
\<close>

definition v :: "receiver \<Rightarrow> rng \<Rightarrow> error + (int list \<times> rng)" where
  "v r g =
     ebind (sample_list (randrange (q_val r)) (nat (n_val r)) g) (\<lambda>(v0, g1).
     ebind (py_mod (dot (t_val r) v0) (q_val r)) (\<lambda>tot.
     ebind (py_mod (secret r - tot) (q_val r)) (\<lambda>targ_b.
     ebind (randrange (n_val r) g1) (\<lambda>(rnd, g2).
     ebind (py_index v0 rnd) (\<lambda>x.
     ebind (py_index (t_val r) rnd) (\<lambda>tr.
     ebind (py_setitem v0 rnd (x + targ_b * tr)) (\<lambda>v1.
     ebind (py_index v1 rnd) (\<lambda>y.
     ebind (py_mod y (q_val r)) (\<lambda>y'.
     ebind (py_setitem v1 rnd y') (\<lambda>v2.
     Inr (v2, g2)))))))))))"

subsection \<open>\<open>play\<close>\<close>

text \<open>
  The moduli are compared first. Then the answers \<open>z\<close> are collected for
  \<open>i\<close> in \<open>range(sender.n)\<close>, the argument \<open>receiver.t[i]\<close> being read before
  \<open>sender.ot\<close> is called; then \<open>receiver.v()\<close> draws the vector, and the two shares
  are \<open>-sum(...) % q\<close> (the negation binds tighter than \<open>%\<close>) and \<open>sum(...) % q\<close>.
\<close>

definition play :: "receiver \<Rightarrow> sender \<Rightarrow> rng \<Rightarrow> error + ((int \<times> int) \<times> rng)" where
  "play r s g =
     (if q_val r \<noteq> q_val s then Inl InvalidPairing
      else
        ebind (collect (\<lambda>i. ebind (py_index (t_val r) (int i)) (\<lambda>ti. ot s (int i) ti))
                 [0..<nat (n_val s)]) (\<lambda>z.
        ebind (v r g) (\<lambda>(vv, g').
        ebind (py_mod (- dot (delta s) vv) (q_val s)) (\<lambda>p1.
        ebind (py_mod (dot z vv) (q_val s)) (\<lambda>p2.
        Inr ((p1, p2), g'))))))"

section \<open>The run with its effects\<close>

text \<open>
  The definitions above take a list as a value and return no state when a statement
  raises. The definitions of this section run the same statements in a world, which
  every step takes and returns, also a step that raises:
  \<^item> \<open>tape\<close>, the random source;
  \<^item> \<open>heap\<close> and \<open>fresh\<close>, the store of list objects: a Python list is an object, a
    variable or field holds a reference to it, and \<open>xs[i] = x\<close> writes to the object that
    every holder of the reference reads; \<open>fresh\<close> is the first reference not yet given
    out;
  \<^item> \<open>queries\<close>, the log of the calls of \<open>Sender.ot\<close> so far, each with its index and its
    sign, in the order of the calls.
\<close>

type_synonym ref = nat

record world =
  tape :: rng
  heap :: "ref \<Rightarrow> int list"
  fresh :: ref
  queries :: "(int \<times> int) list"

type_synonym 'a run = "world \<Rightarrow> (error + 'a) \<times> world"

text \<open>Returning, raising, sequencing, and a computation of the section above that touches no state.\<close>

definition rreturn :: "'a \<Rightarrow> 'a run" where
  "rreturn x w = (Inr x, w)"

definition rraise :: "error \<Rightarrow> 'a run" where
  "rraise e w = (Inl e, w)"

definition rbind :: "'a run \<Rightarrow> ('a \<Rightarrow> 'b run) \<Rightarrow> 'b run" where
  "rbind m f w = (case m w of (Inl e, w') \<Rightarrow> (Inl e, w') | (Inr x, w') \<Rightarrow> f x w')"

definition lift :: "error + 'a \<Rightarrow> 'a run" where
  "lift m w = (m, w)"

text \<open>One call of a sampling function on the world's tape.\<close>

definition draw :: "(rng \<Rightarrow> error + ('a \<times> rng)) \<Rightarrow> 'a run" where
  "draw f w = (case f (tape w) of Inl e \<Rightarrow> (Inl e, w) | Inr (x, g') \<Rightarrow> (Inr x, w\<lparr>tape := g'\<rparr>))"

text \<open>
  The list objects: a new list takes the fresh reference; \<open>len(p)\<close>, \<open>p[i]\<close> and
  \<open>p[i] = x\<close> read and write the object behind the reference \<open>p\<close>;
  \<open>sum(map(lambda x, y: x * y, p, p'))\<close> reads two of them.
\<close>

definition new_list :: "int list \<Rightarrow> ref run" where
  "new_list xs w = (Inr (fresh w), w\<lparr>heap := (heap w)(fresh w := xs), fresh := Suc (fresh w)\<rparr>)"

definition len :: "ref \<Rightarrow> int run" where
  "len p w = (Inr (int (length (heap w p))), w)"

definition getitem :: "ref \<Rightarrow> int \<Rightarrow> int run" where
  "getitem p i w = (py_index (heap w p) i, w)"

definition setitem :: "ref \<Rightarrow> int \<Rightarrow> int \<Rightarrow> unit run" where
  "setitem p i x w =
     (case py_setitem (heap w p) i x of
        Inl e \<Rightarrow> (Inl e, w)
      | Inr xs \<Rightarrow> (Inr (), w\<lparr>heap := (heap w)(p := xs)\<rparr>))"

definition dot_run :: "ref \<Rightarrow> ref \<Rightarrow> int run" where
  "dot_run p p' w = (Inr (dot (heap w p) (heap w p')), w)"

text \<open>The entry that a call of \<open>Sender.ot\<close> leaves in the log.\<close>

definition log_query :: "int \<Rightarrow> int \<Rightarrow> unit run" where
  "log_query i t w = (Inr (), w\<lparr>queries := queries w @ [(i, t)]\<rparr>)"

text \<open>
  A list comprehension: its elements are computed in order, the first error ends it,
  and the result is a new list object.
\<close>

fun collect_run :: "('a \<Rightarrow> int run) \<Rightarrow> 'a list \<Rightarrow> int list run" where
  "collect_run f [] = rreturn []"
| "collect_run f (x # xs) =
     rbind (f x) (\<lambda>y. rbind (collect_run f xs) (\<lambda>ys. rreturn (y # ys)))"

definition comprehension :: "('a \<Rightarrow> int run) \<Rightarrow> 'a list \<Rightarrow> ref run" where
  "comprehension f xs = rbind (collect_run f xs) new_list"

text \<open>
  The objects: the fields \<open>delta_\<close> and \<open>t_\<close> hold references, and the properties
  \<open>delta\<close> and \<open>t\<close> return them, so \<open>s.delta\<close> and \<open>r.t\<close> are \<open>delta_ref s\<close> and \<open>t_ref r\<close>.
\<close>

record sender_obj = player +
  delta_ref :: ref

record receiver_obj = player +
  t_ref :: ref

text \<open>
  The constructors, \<open>Sender.ot\<close>, \<open>Receiver.v\<close> and \<open>play\<close>, statement by statement as in
  the section above. \<open>Sender.ot\<close> enters the log when it is called. \<open>Receiver.v\<close>
  assigns twice to \<open>v[rnd]\<close>, the list it has just built.
\<close>

definition Sender_new :: "int \<Rightarrow> int \<Rightarrow> sender_obj run" where
  "Sender_new a q =
     rbind (lift (Player_init a q)) (\<lambda>p.
     rbind (comprehension (\<lambda>_. draw (randrange q)) [0..<nat (n_val p)]) (\<lambda>d.
     rreturn \<lparr>secret = secret p, q_val = q_val p, n_val = n_val p, delta_ref = d\<rparr>))"

definition ot_run :: "sender_obj \<Rightarrow> int \<Rightarrow> int \<Rightarrow> int run" where
  "ot_run s i t =
     rbind (log_query i t) (\<lambda>_.
     rbind (len (delta_ref s)) (\<lambda>l.
     if i \<ge> l then rraise IndexOutOfRange
     else if t \<noteq> 1 \<and> t \<noteq> - 1 then rraise InvalidSign
     else rbind (getitem (delta_ref s) i) (\<lambda>d. lift (py_mod (secret s * t + d) (q_val s)))))"

definition Receiver_new :: "int \<Rightarrow> int \<Rightarrow> receiver_obj run" where
  "Receiver_new b q =
     rbind (lift (Player_init b q)) (\<lambda>p.
     rbind (comprehension (\<lambda>_. draw sample_t) [0..<nat (n_val p)]) (\<lambda>ts.
     rreturn \<lparr>secret = secret p, q_val = q_val p, n_val = n_val p, t_ref = ts\<rparr>))"

definition v_run :: "receiver_obj \<Rightarrow> ref run" where
  "v_run r =
     rbind (comprehension (\<lambda>_. draw (randrange (q_val r))) [0..<nat (n_val r)]) (\<lambda>pv.
     rbind (dot_run (t_ref r) pv) (\<lambda>sm.
     rbind (lift (py_mod sm (q_val r))) (\<lambda>tot.
     rbind (lift (py_mod (secret r - tot) (q_val r))) (\<lambda>targ_b.
     rbind (draw (randrange (n_val r))) (\<lambda>rnd.
     rbind (getitem pv rnd) (\<lambda>x.
     rbind (getitem (t_ref r) rnd) (\<lambda>tr.
     rbind (setitem pv rnd (x + targ_b * tr)) (\<lambda>_.
     rbind (getitem pv rnd) (\<lambda>y.
     rbind (lift (py_mod y (q_val r))) (\<lambda>y'.
     rbind (setitem pv rnd y') (\<lambda>_.
     rreturn pv)))))))))))"

definition play_run :: "receiver_obj \<Rightarrow> sender_obj \<Rightarrow> (int \<times> int) run" where
  "play_run r s =
     (if q_val r \<noteq> q_val s then rraise InvalidPairing
      else
        rbind (comprehension (\<lambda>i. rbind (getitem (t_ref r) (int i)) (\<lambda>ti. ot_run s (int i) ti))
                 [0..<nat (n_val s)]) (\<lambda>pz.
        rbind (v_run r) (\<lambda>pv.
        rbind (dot_run (delta_ref s) pv) (\<lambda>sd.
        rbind (lift (py_mod (- sd) (q_val s))) (\<lambda>p1.
        rbind (dot_run pz pv) (\<lambda>sz.
        rbind (lift (py_mod sz (q_val s))) (\<lambda>p2.
        rreturn (p1, p2))))))))"

text \<open>
  The value that an object has in a world: the record of the section above with the
  list that the reference holds there.
\<close>

abbreviation sender_at :: "world \<Rightarrow> sender_obj \<Rightarrow> sender" where
  "sender_at w s \<equiv> \<lparr>secret = secret s, q_val = q_val s, n_val = n_val s, delta = heap w (delta_ref s)\<rparr>"

abbreviation receiver_at :: "world \<Rightarrow> receiver_obj \<Rightarrow> receiver" where
  "receiver_at w r \<equiv> \<lparr>secret = secret r, q_val = q_val r, n_val = n_val r, t_val = heap w (t_ref r)\<rparr>"

text \<open>The world in which the examples start: nothing allocated, nothing asked.\<close>

abbreviation world0 :: world where
  "world0 \<equiv> \<lparr>tape = (\<lambda>i. int i), heap = (\<lambda>_. []), fresh = 0, queries = []\<rparr>"

section \<open>Properties\<close>

subsection \<open>Sequencing and the host operations\<close>

lemma ebind_Inr [simp]: "ebind (Inr x) f = f x"
  by (simp add: ebind_def)

lemma ebind_Inl [simp]: "ebind (Inl e) f = Inl e"
  by (simp add: ebind_def)

lemma randrange_pos: "0 < m \<Longrightarrow> randrange m g = Inr (g 0 mod m, \<lambda>i. g (Suc i))"
  by (simp add: randrange_def)

lemma randrange_any: "0 \<le> x \<Longrightarrow> x < m \<Longrightarrow> randrange m (\<lambda>_. x) = Inr (x, \<lambda>_. x)"
  by (simp add: randrange_def)

lemma sample_list_tape:
  assumes "\<And>g. f g = Inr (h (g 0), \<lambda>i. g (Suc i))"
  shows "sample_list f m g = Inr (map (\<lambda>i. h (g i)) [0..<m], \<lambda>i. g (i + m))"
proof (induction m arbitrary: g)
  case 0
  show ?case by simp
next
  case (Suc m)
  have "map (\<lambda>i. h (g i)) [0..<Suc m] = h (g 0) # map (\<lambda>i. h (g (Suc i))) [0..<m]"
    by (simp add: upt_conv_Cons map_Suc_upt [symmetric] del: upt_Suc)
  then show ?case
    using Suc.IH [of "\<lambda>i. g (Suc i)"] by (simp add: assms del: upt_Suc)
qed

lemma sample_list_randrange:
  "0 < m \<Longrightarrow>
   sample_list (randrange m) n g = Inr (map (\<lambda>i. g i mod m) [0..<n], \<lambda>i. g (i + n))"
  by (rule sample_list_tape) (simp add: randrange_pos)

lemma sample_t_eq:
  "sample_t g = Inr (if g 0 mod 100 mod 2 = 1 then 1 else - 1, \<lambda>i. g (Suc i))"
  by (simp add: sample_t_def randrange_def)

lemma sample_list_sample_t:
  "sample_list sample_t n g =
   Inr (map (\<lambda>i. if g i mod 100 mod 2 = 1 then 1 else - 1) [0..<n], \<lambda>i. g (i + n))"
  by (rule sample_list_tape) (simp add: sample_t_eq)

text \<open>
  Every outcome is the outcome on some tape: any list of integers of \<open>[0, m)\<close> is what
  the comprehension over \<open>randrange(m)\<close> draws, and each sign is what \<open>sample_t\<close> draws.
\<close>

lemma sample_list_randrange_any:
  assumes "0 < m" and "\<forall>x \<in> set xs. 0 \<le> x \<and> x < m"
  shows "\<exists>g g'. sample_list (randrange m) (length xs) g = Inr (xs, g')"
proof -
  define g :: rng where "g = (\<lambda>i. if i < length xs then xs ! i else 0)"
  have "map (\<lambda>i. g i mod m) [0..<length xs] = xs"
    using assms(2) by (intro nth_equalityI) (simp_all add: g_def)
  then show ?thesis
    using sample_list_randrange [OF assms(1), of "length xs" g] by auto
qed

lemma sample_t_any: "t = 1 \<or> t = - 1 \<Longrightarrow> \<exists>g g'. sample_t g = Inr (t, g')"
proof (elim disjE)
  assume "t = 1"
  then have "sample_t (\<lambda>_. 1) = Inr (t, \<lambda>_. 1)" by (simp add: sample_t_eq)
  then show ?thesis by blast
next
  assume "t = - 1"
  then have "sample_t (\<lambda>_. 0) = Inr (t, \<lambda>_. 0)" by (simp add: sample_t_eq)
  then show ?thesis by blast
qed

subsection \<open>Inner products modulo \<open>q\<close>\<close>

lemma dot_Nil [simp]: "dot [] ys = 0" "dot xs [] = 0"
  by (simp_all add: dot_def)

lemma dot_Cons [simp]: "dot (x # xs) (y # ys) = x * y + dot xs ys"
  by (simp add: dot_def)

lemma dot_update:
  "length ts = length vs \<Longrightarrow> i < length vs \<Longrightarrow>
   dot ts (vs[i := y]) = dot ts vs + ts ! i * (y - vs ! i)"
proof (induction ts vs arbitrary: i rule: list_induct2)
  case Nil
  then show ?case by simp
next
  case (Cons t ts x vs)
  then show ?case
    by (cases i) (simp_all add: algebra_simps)
qed

lemma sign_square: "t = 1 \<or> t = - 1 \<Longrightarrow> t * t = (1::int)"
  by auto

lemma adjust_mod:
  fixes b tot x t m :: int
  assumes "t = 1 \<or> t = - 1"
  shows "(d + t * ((x + ((b - d mod m) mod m) * t) mod m - x)) mod m = b mod m"
proof -
  have "(x + (b - d mod m) mod m * t) mod m = (x + (b - d) * t) mod m"
    by (intro mod_add_cong mod_mult_cong refl) (simp add: mod_simps)
  then have "(d + t * ((x + ((b - d mod m) mod m) * t) mod m - x)) mod m
      = (d + t * ((x + (b - d) * t) - x)) mod m"
    by (intro mod_add_cong mod_mult_cong mod_diff_cong refl) simp_all
  also have "d + t * ((x + (b - d) * t) - x) = d + (b - d) * (t * t)"
    by (simp add: algebra_simps)
  also have "\<dots> = b" using assms by auto
  finally show ?thesis .
qed

lemma dot_answers:
  "length ts = length ds \<Longrightarrow> length ds = length vs \<Longrightarrow>
   dot (map2 (\<lambda>t d. (a * t + d) mod m) ts ds) vs mod m = (a * dot ts vs + dot ds vs) mod m"
proof (induction ts ds vs rule: list_induct3)
  case Nil
  then show ?case by simp
next
  case (Cons t ts d ds x vs)
  have "((a * t + d) mod m * x + dot (map2 (\<lambda>t d. (a * t + d) mod m) ts ds) vs) mod m
      = ((a * t + d) * x + (a * dot ts vs + dot ds vs)) mod m"
    by (intro mod_add_cong mod_mult_cong refl Cons.IH) simp
  then show ?case by (simp add: algebra_simps)
qed

lemma shares_mod:
  fixes a dv tv zv m :: int
  assumes "zv mod m = (a * tv + dv) mod m"
  shows "((- dv) mod m + zv mod m) mod m = (a * tv) mod m"
proof -
  have "((- dv) mod m + zv mod m) mod m = (- dv + (a * tv + dv)) mod m"
    unfolding assms by (simp add: mod_simps)
  then show ?thesis by simp
qed

lemma dot_sum_nth:
  "length xs = length ys \<Longrightarrow> dot xs ys = (\<Sum>i = 0..<length xs. xs ! i * ys ! i)"
proof -
  assume len: "length xs = length ys"
  have "dot xs ys = (\<Sum>i = 0..<length (map2 (\<lambda>x y. x * y) xs ys). map2 (\<lambda>x y. x * y) xs ys ! i)"
    unfolding dot_def by (rule sum_list_sum_nth)
  also have "\<dots> = (\<Sum>i = 0..<length xs. xs ! i * ys ! i)"
    using len by (intro sum.cong) simp_all
  finally show ?thesis .
qed

lemma collect_map: "(\<And>x. x \<in> set xs \<Longrightarrow> f x = Inr (h x)) \<Longrightarrow> collect f xs = Inr (map h xs)"
  by (induction xs) simp_all

lemma map_upt_map2:
  "length xs = n \<Longrightarrow> length ys = n \<Longrightarrow> map (\<lambda>i. F (xs ! i) (ys ! i)) [0..<n] = map2 F xs ys"
  by (rule nth_equalityI) simp_all

subsection \<open>The constructors and \<open>Receiver.v\<close> in closed form\<close>

lemma is_prime_gt_1: "is_prime q \<Longrightarrow> 1 < q"
  by (simp add: is_prime_def)

lemma Player_init_Inr:
  "Player_init s q = Inr p \<longleftrightarrow>
   is_prime q \<and> s < q \<and> p = \<lparr>secret = s, q_val = q, n_val = int (ceillog2 (nat q)) + k\<rparr>"
  by (auto simp: Player_init_def)

lemma Sender_init_Inr:
  "Sender_init a q g = Inr (s, g') \<longleftrightarrow>
   is_prime q \<and> a < q \<and>
   s = \<lparr>secret = a, q_val = q, n_val = int (ceillog2 (nat q)) + k,
        delta = map (\<lambda>i. g i mod q) [0..<ceillog2 (nat q) + nat k]\<rparr> \<and>
   g' = (\<lambda>i. g (i + (ceillog2 (nat q) + nat k)))"
proof (cases "Player_init a q")
  case (Inl e)
  then show ?thesis
    using Player_init_Inr [of a q] by (auto simp: Sender_init_def)
next
  case (Inr p)
  then have p: "is_prime q" "a < q" "p = \<lparr>secret = a, q_val = q, n_val = int (ceillog2 (nat q)) + k\<rparr>"
    by (simp_all add: Player_init_Inr)
  have n: "nat (int (ceillog2 (nat q)) + k) = ceillog2 (nat q) + nat k"
    by (simp add: k_def nat_add_distrib)
  from p(1) have "0 < q" by (simp add: is_prime_def)
  then show ?thesis
    using Inr p by (auto simp: Sender_init_def sample_list_randrange n)
qed

lemma Receiver_init_Inr:
  "Receiver_init b q g = Inr (r, g') \<longleftrightarrow>
   is_prime q \<and> b < q \<and>
   r = \<lparr>secret = b, q_val = q, n_val = int (ceillog2 (nat q)) + k,
        t_val = map (\<lambda>i. if g i mod 100 mod 2 = 1 then 1 else - 1) [0..<ceillog2 (nat q) + nat k]\<rparr> \<and>
   g' = (\<lambda>i. g (i + (ceillog2 (nat q) + nat k)))"
proof (cases "Player_init b q")
  case (Inl e)
  then show ?thesis
    using Player_init_Inr [of b q] by (auto simp: Receiver_init_def)
next
  case (Inr p)
  then have p: "is_prime q" "b < q" "p = \<lparr>secret = b, q_val = q, n_val = int (ceillog2 (nat q)) + k\<rparr>"
    by (simp_all add: Player_init_Inr)
  have n: "nat (int (ceillog2 (nat q)) + k) = ceillog2 (nat q) + nat k"
    by (simp add: k_def nat_add_distrib)
  show ?thesis
    using Inr p by (auto simp: Receiver_init_def sample_list_sample_t n)
qed

lemma v_eq:
  assumes q: "0 < q_val r" and n: "n_val r = int (length (t_val r))" and pos: "0 < n_val r"
  shows "v r g =
     Inr (let v0 = map (\<lambda>i. g i mod q_val r) [0..<nat (n_val r)];
              rnd = nat (g (nat (n_val r)) mod n_val r)
          in v0[rnd := (v0 ! rnd + (secret r - dot (t_val r) v0 mod q_val r) mod q_val r * t_val r ! rnd)
                          mod q_val r],
          \<lambda>i. g (Suc (i + nat (n_val r))))"
proof -
  define m where "m = nat (n_val r)"
  define rnd where "rnd = g m mod n_val r"
  have rnd: "0 \<le> rnd" "rnd < n_val r" "nat rnd < m" "rnd < int (length (t_val r))"
    using pos n by (simp_all add: rnd_def m_def nat_less_iff)
  have m: "length (t_val r) = m" using n by (simp add: m_def)
  show ?thesis
    using q pos rnd
    by (simp add: v_def sample_list_randrange py_mod_def randrange_pos py_index_def
        py_setitem_def Let_def m_def [symmetric] rnd_def [symmetric] m)
qed

subsection \<open>What the constructors establish, and what the methods make of it\<close>

lemma n_pos: "0 < int (ceillog2 m) + k"
  by (simp add: k_def)

lemma nat_n: "nat (int (ceillog2 m) + k) = ceillog2 m + nat k"
  by (simp add: k_def nat_add_distrib)

lemma ot_eq:
  assumes "0 \<le> i" "i < int (length (delta s))" "t = 1 \<or> t = - 1" "q_val s \<noteq> 0"
  shows "ot s i t = Inr ((secret s * t + delta s ! nat i) mod q_val s)"
  using assms by (auto simp: ot_def py_index_def py_mod_def)

lemma ot_wrap:
  assumes "i < 0" "- int (length (delta s)) \<le> i" "t = 1 \<or> t = - 1" "q_val s \<noteq> 0"
  shows "ot s i t = Inr ((secret s * t + delta s ! nat (i + int (length (delta s)))) mod q_val s)"
  using assms by (auto simp: ot_def py_index_def py_mod_def)

lemma v_dot:
  assumes q: "0 < q_val r" and n: "n_val r = int (length (t_val r))" and pos: "0 < n_val r"
    and signs: "\<forall>t \<in> set (t_val r). t = 1 \<or> t = - 1"
    and res: "v r g = Inr (vv, g')"
  shows "dot (t_val r) vv mod q_val r = secret r mod q_val r"
proof -
  define v0 where "v0 = map (\<lambda>i. g i mod q_val r) [0..<nat (n_val r)]"
  define rnd where "rnd = nat (g (nat (n_val r)) mod n_val r)"
  define y where "y = (v0 ! rnd + (secret r - dot (t_val r) v0 mod q_val r) mod q_val r * t_val r ! rnd)
                          mod q_val r"
  have vv: "vv = v0[rnd := y]"
    using res unfolding v_eq [OF q n pos] by (simp add: Let_def v0_def rnd_def y_def)
  have len: "length (t_val r) = length v0"
    using n by (simp add: v0_def)
  have rnd: "rnd < length v0"
    using pos by (simp add: rnd_def v0_def nat_less_iff)
  have sign: "t_val r ! rnd = 1 \<or> t_val r ! rnd = - 1"
    using signs rnd len by (metis nth_mem)
  have "dot (t_val r) vv = dot (t_val r) v0 + t_val r ! rnd * (y - v0 ! rnd)"
    unfolding vv by (rule dot_update [OF len rnd])
  then show ?thesis
    unfolding y_def by (simp only: adjust_mod [OF sign])
qed

lemma v_range:
  assumes q: "0 < q_val r" and n: "n_val r = int (length (t_val r))" and pos: "0 < n_val r"
    and res: "v r g = Inr (vv, g')"
  shows "int (length vv) = n_val r \<and> (\<forall>x \<in> set vv. 0 \<le> x \<and> x < q_val r)"
proof -
  define v0 where "v0 = map (\<lambda>i. g i mod q_val r) [0..<nat (n_val r)]"
  define rnd where "rnd = nat (g (nat (n_val r)) mod n_val r)"
  define y where "y = (v0 ! rnd + (secret r - dot (t_val r) v0 mod q_val r) mod q_val r * t_val r ! rnd)
                          mod q_val r"
  have vv: "vv = v0[rnd := y]"
    using res unfolding v_eq [OF q n pos] by (simp add: Let_def v0_def rnd_def y_def)
  have "\<forall>x \<in> set v0. 0 \<le> x \<and> x < q_val r"
    using q by (auto simp: v0_def)
  moreover have "0 \<le> y \<and> y < q_val r"
    using q by (simp add: y_def)
  moreover have "set vv \<subseteq> insert y (set v0)"
    unfolding vv by (rule set_update_subset_insert)
  ultimately have "\<forall>x \<in> set vv. 0 \<le> x \<and> x < q_val r"
    by blast
  moreover have "int (length vv) = n_val r"
    using pos by (simp add: vv v0_def)
  ultimately show ?thesis by simp
qed

lemma Receiver_init_inv:
  assumes "Receiver_init b q g = Inr (r, g')"
  shows "is_prime q" "b < q" "secret r = b" "q_val r = q" "0 < n_val r"
    "n_val r = int (length (t_val r))" "\<forall>t \<in> set (t_val r). t = 1 \<or> t = - 1"
    "n_val r = int (ceillog2 (nat q)) + k"
  using assms unfolding Receiver_init_Inr by (auto simp: k_def)

lemma Sender_init_inv:
  assumes "Sender_init a q g = Inr (s, g')"
  shows "is_prime q" "a < q" "secret s = a" "q_val s = q" "0 < n_val s"
    "n_val s = int (length (delta s))" "\<forall>d \<in> set (delta s). 0 \<le> d \<and> d < q"
    "n_val s = int (ceillog2 (nat q)) + k"
  using assms unfolding Sender_init_Inr by (auto simp: k_def is_prime_def)

lemma v_succeeds:
  assumes q: "0 < q_val r" and n: "n_val r = int (length (t_val r))" and pos: "0 < n_val r"
  shows "\<exists>vv g'. v r g = Inr (vv, g')"
  unfolding v_eq [OF q n pos] by blast

subsection \<open>One run of \<open>play\<close>\<close>

lemma play_answers:
  assumes qs: "q_val s \<noteq> 0" and ns: "n_val s = int (length (delta s))"
    and nr: "n_val s = int (length (t_val r))"
    and signs: "\<forall>t \<in> set (t_val r). t = 1 \<or> t = - 1"
  shows "collect (\<lambda>i. ebind (py_index (t_val r) (int i)) (\<lambda>ti. ot s (int i) ti)) [0..<nat (n_val s)]
       = Inr (map2 (\<lambda>t d. (secret s * t + d) mod q_val s) (t_val r) (delta s))"
proof -
  have len: "length (t_val r) = nat (n_val s)" "length (delta s) = nat (n_val s)"
    using ns nr by simp_all
  have "collect (\<lambda>i. ebind (py_index (t_val r) (int i)) (\<lambda>ti. ot s (int i) ti)) [0..<nat (n_val s)]
      = Inr (map (\<lambda>i. (secret s * t_val r ! i + delta s ! i) mod q_val s) [0..<nat (n_val s)])"
  proof (rule collect_map)
    fix i assume "i \<in> set [0..<nat (n_val s)]"
    then have i: "i < length (t_val r)" "i < length (delta s)"
      using len by simp_all
    then have "t_val r ! i = 1 \<or> t_val r ! i = - 1"
      using signs by (metis nth_mem)
    then have "ot s (int i) (t_val r ! i) = Inr ((secret s * t_val r ! i + delta s ! nat (int i)) mod q_val s)"
      using i qs by (intro ot_eq) simp_all
    then show "ebind (py_index (t_val r) (int i)) (\<lambda>ti. ot s (int i) ti)
        = Inr ((secret s * t_val r ! i + delta s ! i) mod q_val s)"
      using i by (simp add: py_index_def)
  qed
  also have "map (\<lambda>i. (secret s * t_val r ! i + delta s ! i) mod q_val s) [0..<nat (n_val s)]
      = map2 (\<lambda>t d. (secret s * t + d) mod q_val s) (t_val r) (delta s)"
    using len by (rule map_upt_map2)
  finally show ?thesis .
qed

lemma play_shares:
  assumes eq: "q_val r = q_val s" and q: "0 < q_val s"
    and ns: "n_val s = int (length (delta s))" and nr: "n_val r = int (length (t_val r))"
    and n: "n_val r = n_val s" and pos: "0 < n_val r"
    and signs: "\<forall>t \<in> set (t_val r). t = 1 \<or> t = - 1"
  shows "\<exists>p1 p2 g'. play r s g = Inr ((p1, p2), g') \<and>
           (p1 + p2) mod q_val s = (secret s * secret r) mod q_val s \<and>
           0 \<le> p1 \<and> p1 < q_val s \<and> 0 \<le> p2 \<and> p2 < q_val s"
proof -
  have qr: "0 < q_val r" using eq q by simp
  obtain vv g' where vv: "v r g = Inr (vv, g')"
    using v_succeeds [OF qr nr pos] by blast
  have tv: "dot (t_val r) vv mod q_val s = secret r mod q_val s"
    using v_dot [OF qr nr pos signs vv] eq by simp
  have lv: "length vv = length (delta s)" "length (t_val r) = length (delta s)"
    using v_range [OF qr nr pos vv] ns nr n by simp_all
  define z where "z = map2 (\<lambda>t d. (secret s * t + d) mod q_val s) (t_val r) (delta s)"
  have z: "collect (\<lambda>i. ebind (py_index (t_val r) (int i)) (\<lambda>ti. ot s (int i) ti)) [0..<nat (n_val s)] = Inr z"
    unfolding z_def using q ns nr n signs by (intro play_answers) simp_all
  have zv: "dot z vv mod q_val s = (secret s * dot (t_val r) vv + dot (delta s) vv) mod q_val s"
    unfolding z_def using lv by (intro dot_answers) simp_all
  have play: "play r s g = Inr (((- dot (delta s) vv) mod q_val s, dot z vv mod q_val s), g')"
    using eq q by (simp add: play_def z vv py_mod_def)
  have "((- dot (delta s) vv) mod q_val s + dot z vv mod q_val s) mod q_val s
      = (secret s * dot (t_val r) vv) mod q_val s"
    by (rule shares_mod [OF zv])
  also have "\<dots> = (secret s * (dot (t_val r) vv mod q_val s)) mod q_val s"
    by (simp add: mod_simps)
  also have "\<dots> = (secret s * secret r) mod q_val s"
    unfolding tv by (simp add: mod_simps)
  finally show ?thesis
    using play q by simp
qed

subsection \<open>Concrete moduli, and the constructors on valid arguments\<close>

lemma is_prime_11: "is_prime 11"
  by code_simp

lemma is_prime_13: "is_prime 13"
  by code_simp

lemma is_prime_3: "is_prime 3"
  by code_simp

lemma not_is_prime_4: "\<not> is_prime 4"
  by code_simp

lemma ceillog2_11: "ceillog2 11 = 4"
  by code_simp

lemma Sender_init_succeeds:
  "is_prime q \<Longrightarrow> a < q \<Longrightarrow> \<exists>s g'. Sender_init a q g = Inr (s, g')"
  by (simp add: Sender_init_Inr)

lemma Receiver_init_succeeds:
  "is_prime q \<Longrightarrow> b < q \<Longrightarrow> \<exists>r g'. Receiver_init b q g = Inr (r, g')"
  by (simp add: Receiver_init_Inr)

section \<open>The run and the values agree\<close>

subsection \<open>What a step leaves as it was\<close>


lemma rbind_Inr: "m w = (Inr x, w') \<Longrightarrow> rbind m f w = f x w'"
  by (simp add: rbind_def)

lemma rbind_Inl: "m w = (Inl e, w') \<Longrightarrow> rbind m f w = (Inl e, w')"
  by (simp add: rbind_def)




lemma len_same: "len p w = (res, w') \<Longrightarrow> w' = w"
  by (auto simp: len_def)


lemma log_query_same:
  "log_query i t w = (res, w') \<Longrightarrow> heap w' = heap w \<and> fresh w' = fresh w \<and> tape w' = tape w"
  by (auto simp: log_query_def)





subsection \<open>Queries and draws\<close>

lemma ot_run_eq:
  "ot_run s i t w = (ot (sender_at w s) i t, w\<lparr>queries := queries w @ [(i, t)]\<rparr>)"
  by (simp add: ot_run_def ot_def rbind_def log_query_def len_def getitem_def lift_def
      rraise_def ebind_def split: sum.splits)

lemma query_eq:
  "rbind (getitem (t_ref r) i) (\<lambda>ti. ot_run s i ti) w =
     (case py_index (heap w (t_ref r)) i of
        Inl e \<Rightarrow> (Inl e, w)
      | Inr ti \<Rightarrow> (ot (sender_at w s) i ti, w\<lparr>queries := queries w @ [(i, ti)]\<rparr>))"
  by (simp add: rbind_def getitem_def ot_run_eq split: sum.splits)


lemma collect_run_draw_Inr:
  "sample_list f (length xs) (tape w) = Inr (ys, g') \<Longrightarrow>
   collect_run (\<lambda>_. draw f) xs w = (Inr ys, w\<lparr>tape := g'\<rparr>)"
proof (induction xs arbitrary: w ys)
  case Nil
  then show ?case by (auto simp: rreturn_def)
next
  case (Cons x xs)
  from Cons.prems obtain y g1 zs where
    y: "f (tape w) = Inr (y, g1)" and zs: "sample_list f (length xs) g1 = Inr (zs, g')" and ys: "ys = y # zs"
    by (auto simp: ebind_def split: sum.splits)
  have d: "draw f w = (Inr y, w\<lparr>tape := g1\<rparr>)"
    using y by (simp add: draw_def)
  have c: "collect_run (\<lambda>_. draw f) xs (w\<lparr>tape := g1\<rparr>) = (Inr zs, w\<lparr>tape := g1\<rparr>\<lparr>tape := g'\<rparr>)"
    by (rule Cons.IH) (simp add: zs)
  show ?case
    using ys by (simp add: rbind_Inr [where m = "draw f", OF d] rbind_Inr [where m = "collect_run (\<lambda>_. draw f) xs", OF c] rreturn_def)
qed


subsection \<open>The constructors and \<open>Receiver.v\<close>\<close>

lemma comprehension_draw_Inr:
  "sample_list f (length xs) (tape w) = Inr (ys, g') \<Longrightarrow>
   comprehension (\<lambda>_. draw f) xs w =
     (Inr (fresh w), w\<lparr>tape := g', heap := (heap w)(fresh w := ys), fresh := Suc (fresh w)\<rparr>)"
  unfolding comprehension_def
  by (simp add: rbind_Inr [where m = "collect_run (\<lambda>_. draw f) xs", OF collect_run_draw_Inr]
      new_list_def)


lemma Receiver_new_Inl:
  assumes "Receiver_init b q (tape w) = Inl e"
  shows "Receiver_new b q w = (Inl e, w)"
proof (cases "Player_init b q")
  case (Inl e')
  then have l: "lift (Player_init b q) w = (Inl e', w)" by (simp add: lift_def)
  have "e' = e"
    using assms Inl by (simp add: Receiver_init_def)
  then show ?thesis
    unfolding Receiver_new_def
    by (simp add: rbind_Inl [where m = "lift (Player_init b q)", OF l])
next
  case (Inr p)
  then show ?thesis
    using assms by (simp add: Receiver_init_def sample_list_sample_t)
qed

lemma Receiver_new_Inr:
  assumes "Receiver_init b q (tape w) = Inr (rv, g')"
  shows "Receiver_new b q w =
     (Inr \<lparr>secret = secret rv, q_val = q_val rv, n_val = n_val rv, t_ref = fresh w\<rparr>,
      w\<lparr>tape := g', heap := (heap w)(fresh w := t_val rv), fresh := Suc (fresh w)\<rparr>)"
proof -
  from assms obtain p where p: "Player_init b q = Inr p"
    by (cases "Player_init b q") (simp_all add: Receiver_init_def)
  have l: "lift (Player_init b q) w = (Inr p, w)"
    using p by (simp add: lift_def)
  from assms p obtain ts where
    ts: "sample_list sample_t (length [0..<nat (n_val p)]) (tape w) = Inr (ts, g')"
    and rv: "rv = \<lparr>secret = secret p, q_val = q_val p, n_val = n_val p, t_val = ts\<rparr>"
    by (auto simp: Receiver_init_def ebind_def split: sum.splits)
  show ?thesis
    unfolding Receiver_new_def
    by (simp add: rbind_Inr [where m = "lift (Player_init b q)", OF l]
        rbind_Inr [where m = "comprehension (\<lambda>_. draw sample_t) [0..<nat (n_val p)]",
          OF comprehension_draw_Inr [OF ts]] rreturn_def rv)
qed

lemma Sender_new_Inl:
  assumes "Sender_init a q (tape w) = Inl e"
  shows "Sender_new a q w = (Inl e, w)"
proof (cases "Player_init a q")
  case (Inl e')
  then have l: "lift (Player_init a q) w = (Inl e', w)" by (simp add: lift_def)
  have "e' = e"
    using assms Inl by (simp add: Sender_init_def)
  then show ?thesis
    unfolding Sender_new_def
    by (simp add: rbind_Inl [where m = "lift (Player_init a q)", OF l])
next
  case (Inr p)
  then have "0 < q"
    using is_prime_gt_1 [of q] by (simp add: Player_init_Inr)
  then show ?thesis
    using assms Inr by (simp add: Sender_init_def sample_list_randrange)
qed

lemma Sender_new_Inr:
  assumes "Sender_init a q (tape w) = Inr (sv, g')"
  shows "Sender_new a q w =
     (Inr \<lparr>secret = secret sv, q_val = q_val sv, n_val = n_val sv, delta_ref = fresh w\<rparr>,
      w\<lparr>tape := g', heap := (heap w)(fresh w := delta sv), fresh := Suc (fresh w)\<rparr>)"
proof -
  from assms obtain p where p: "Player_init a q = Inr p"
    by (cases "Player_init a q") (simp_all add: Sender_init_def)
  have l: "lift (Player_init a q) w = (Inr p, w)"
    using p by (simp add: lift_def)
  from assms p obtain d where
    d: "sample_list (randrange q) (length [0..<nat (n_val p)]) (tape w) = Inr (d, g')"
    and sv: "sv = \<lparr>secret = secret p, q_val = q_val p, n_val = n_val p, delta = d\<rparr>"
    by (auto simp: Sender_init_def ebind_def split: sum.splits)
  show ?thesis
    unfolding Sender_new_def
    by (simp add: rbind_Inr [where m = "lift (Player_init a q)", OF l]
        rbind_Inr [where m = "comprehension (\<lambda>_. draw (randrange q)) [0..<nat (n_val p)]",
          OF comprehension_draw_Inr [OF d]] rreturn_def sv)
qed


lemma v_run_Inr:
  assumes "t_ref r \<noteq> fresh w" and "v (receiver_at w r) (tape w) = Inr (vv, g')"
  shows "v_run r w =
     (Inr (fresh w), w\<lparr>tape := g', heap := (heap w)(fresh w := vv), fresh := Suc (fresh w)\<rparr>)"
proof (cases "sample_list (randrange (q_val r)) (nat (n_val r)) (tape w)")
  case (Inl e')
  then show ?thesis
    using assms(2) by (simp add: v_def)
next
  case (Inr vg)
  obtain v0 g1 where vg: "vg = (v0, g1)" by (cases vg)
  have c: "comprehension (\<lambda>_. draw (randrange (q_val r))) [0..<nat (n_val r)] w =
     (Inr (fresh w), w\<lparr>tape := g1, heap := (heap w)(fresh w := v0), fresh := Suc (fresh w)\<rparr>)"
    using Inr vg by (intro comprehension_draw_Inr) simp
  show ?thesis
    using assms Inr vg unfolding v_run_def v_def
    by (simp add: rbind_Inr [where m = "comprehension (\<lambda>_. draw (randrange (q_val r))) [0..<nat (n_val r)]", OF c])
       (auto simp: rbind_def ebind_def dot_run_def lift_def draw_def getitem_def setitem_def
          rreturn_def split: sum.splits prod.splits)
qed

subsection \<open>\<open>play\<close>\<close>

lemma ot_run_same:
  "ot_run s i t w = (res, w') \<Longrightarrow> heap w' = heap w \<and> fresh w' = fresh w \<and> tape w' = tape w"
  by (auto simp: ot_run_eq)




text \<open>
  A run that succeeds has asked the sender once for each index of \<open>range(n)\<close>, with
  the receiver's sign at that index, has built the lists \<open>z\<close> and \<open>v\<close>, and has moved the
  tape as \<open>play\<close> on the values does.
\<close>

lemma collect_run_queries_Inr:
  assumes "collect (\<lambda>i. ebind (py_index (heap w (t_ref r)) (int i)) (\<lambda>ti. ot (sender_at w s) (int i) ti)) xs = Inr z"
  shows "collect_run (\<lambda>i. rbind (getitem (t_ref r) (int i)) (\<lambda>ti. ot_run s (int i) ti)) xs w =
     (Inr z, w\<lparr>queries := queries w @ map (\<lambda>i. (int i, heap w (t_ref r) ! i)) xs\<rparr>)"
  using assms
proof (induction xs arbitrary: w z)
  case Nil
  then show ?case by (simp add: rreturn_def)
next
  case (Cons x xs)
  let ?F = "\<lambda>i. rbind (getitem (t_ref r) (int i)) (\<lambda>ti. ot_run s (int i) ti)"
  let ?f = "\<lambda>i. ebind (py_index (heap w (t_ref r)) (int i)) (\<lambda>ti. ot (sender_at w s) (int i) ti)"
  from Cons.prems obtain ti y ys where
    ti: "py_index (heap w (t_ref r)) (int x) = Inr ti" and y: "ot (sender_at w s) (int x) ti = Inr y"
    and ys: "collect ?f xs = Inr ys" and z: "z = y # ys"
    by (auto simp: ebind_def split: sum.splits)
  have tix: "ti = heap w (t_ref r) ! x"
    using ti by (auto simp: py_index_def Let_def split: if_splits)
  define w1 where "w1 = w\<lparr>queries := queries w @ [(int x, ti)]\<rparr>"
  have step: "?F x w = (Inr y, w1)"
    using ti y by (simp add: query_eq w1_def)
  have hw: "heap w1 = heap w" by (simp add: w1_def)
  have rest: "collect_run ?F xs w1 =
      (Inr ys, w1\<lparr>queries := queries w1 @ map (\<lambda>i. (int i, heap w1 (t_ref r) ! i)) xs\<rparr>)"
    by (rule Cons.IH) (simp add: hw ys)
  have "collect_run ?F (x # xs) w =
      (Inr (y # ys), w1\<lparr>queries := queries w1 @ map (\<lambda>i. (int i, heap w1 (t_ref r) ! i)) xs\<rparr>)"
    by (simp add: rbind_Inr [where m = "?F x", OF step]
        rbind_Inr [where m = "collect_run ?F xs", OF rest] rreturn_def)
  then show ?case
    by (simp add: z w1_def tix)
qed

lemma play_run_Inr:
  assumes "t_ref r < fresh w" and "delta_ref s < fresh w"
    and "play (receiver_at w r) (sender_at w s) (tape w) = Inr ((p1, p2), g')"
  shows "\<exists>z vv. play_run r s w =
     (Inr (p1, p2),
      w\<lparr>tape := g',
         heap := (heap w)(fresh w := z, Suc (fresh w) := vv),
         fresh := Suc (Suc (fresh w)),
         queries := queries w @ map (\<lambda>i. (int i, heap w (t_ref r) ! i)) [0..<nat (n_val s)]\<rparr>)"
proof -
  have True: "q_val r = q_val s"
    using assms(3) by (auto simp: play_def split: if_splits)
  let ?F = "\<lambda>i. rbind (getitem (t_ref r) (int i)) (\<lambda>ti. ot_run s (int i) ti)"
  let ?f = "\<lambda>i. ebind (py_index (heap w (t_ref r)) (int i)) (\<lambda>ti. ot (sender_at w s) (int i) ti)"
  let ?rest = "\<lambda>pz. rbind (v_run r) (\<lambda>pv.
        rbind (dot_run (delta_ref s) pv) (\<lambda>sd.
        rbind (lift (py_mod (- sd) (q_val s))) (\<lambda>p1.
        rbind (dot_run pz pv) (\<lambda>sz.
        rbind (lift (py_mod sz (q_val s))) (\<lambda>p2.
        rreturn (p1, p2))))))"
  let ?qs = "map (\<lambda>i. (int i, heap w (t_ref r) ! i)) [0..<nat (n_val s)]"
  have run: "play_run r s w = rbind (comprehension ?F [0..<nat (n_val s)]) ?rest w"
    using True by (simp add: play_run_def)
  have pure: "play (receiver_at w r) (sender_at w s) (tape w) =
      ebind (collect ?f [0..<nat (n_val s)]) (\<lambda>z.
        ebind (v (receiver_at w r) (tape w)) (\<lambda>(vv, g').
        ebind (py_mod (- dot (heap w (delta_ref s)) vv) (q_val s)) (\<lambda>p1.
        ebind (py_mod (dot z vv) (q_val s)) (\<lambda>p2.
        Inr ((p1, p2), g')))))"
    using True by (simp add: play_def)
  from assms(3) obtain z where z: "collect ?f [0..<nat (n_val s)] = Inr z"
    unfolding pure by (cases "collect ?f [0..<nat (n_val s)]") simp_all
  from assms(3) obtain vv g1 where vv: "v (receiver_at w r) (tape w) = Inr (vv, g1)"
    unfolding pure z by (cases "v (receiver_at w r) (tape w)") auto
  from assms(3) have sh: "q_val s \<noteq> 0" "p1 = (- dot (heap w (delta_ref s)) vv) mod q_val s"
    "p2 = dot z vv mod q_val s" "g' = g1"
    unfolding pure z vv by (auto simp: py_mod_def ebind_def split: if_splits)
  define w1 where "w1 = w\<lparr>queries := queries w @ ?qs, heap := (heap w)(fresh w := z), fresh := Suc (fresh w)\<rparr>"
  have c: "comprehension ?F [0..<nat (n_val s)] w = (Inr (fresh w), w1)"
    unfolding comprehension_def
    by (simp add: rbind_Inr [where m = "collect_run ?F [0..<nat (n_val s)]", OF collect_run_queries_Inr [OF z]]
        new_list_def w1_def)
  have r1: "receiver_at w1 r = receiver_at w r" "tape w1 = tape w" "t_ref r \<noteq> fresh w1"
    "fresh w1 = Suc (fresh w)" "heap w1 (delta_ref s) = heap w (delta_ref s)" "heap w1 (fresh w) = z"
    using assms(1,2) by (simp_all add: w1_def)
  have run1: "play_run r s w = ?rest (fresh w) w1"
    unfolding run by (rule rbind_Inr [where m = "comprehension ?F [0..<nat (n_val s)]", OF c])
  have v2: "v_run r w1 =
      (Inr (fresh w1), w1\<lparr>tape := g1, heap := (heap w1)(fresh w1 := vv), fresh := Suc (fresh w1)\<rparr>)"
    using v_run_Inr [of r w1 vv g1] r1 vv by simp
  have "play_run r s w =
     (Inr (p1, p2), w1\<lparr>tape := g1, heap := (heap w1)(fresh w1 := vv), fresh := Suc (fresh w1)\<rparr>)"
    unfolding run1
    using r1 assms(1,2) sh
    by (simp add: rbind_Inr [where m = "v_run r", OF v2])
       (simp add: rbind_def dot_run_def lift_def rreturn_def py_mod_def)
  moreover have "w1\<lparr>tape := g1, heap := (heap w1)(fresh w1 := vv), fresh := Suc (fresh w1)\<rparr> =
      w\<lparr>tape := g', heap := (heap w)(fresh w := z, Suc (fresh w) := vv),
         fresh := Suc (Suc (fresh w)), queries := queries w @ ?qs\<rparr>"
    by (simp add: w1_def sh(4))
  ultimately show ?thesis by auto
qed

lemma Receiver_new_inv:
  assumes "Receiver_new b q w = (Inr r, w')"
  shows "\<exists>rv. Receiver_init b q (tape w) = Inr (rv, tape w') \<and>
           secret r = b \<and> q_val r = q \<and> n_val r = n_val rv \<and> t_ref r = fresh w \<and>
           receiver_at w' r = rv \<and>
           w' = w\<lparr>tape := tape w', heap := (heap w)(fresh w := t_val rv), fresh := Suc (fresh w)\<rparr>"
proof (cases "Receiver_init b q (tape w)")
  case (Inl e)
  then show ?thesis using assms by (simp add: Receiver_new_Inl)
next
  case (Inr rg)
  obtain rv g' where rg: "rg = (rv, g')" by (cases rg)
  show ?thesis
    using assms Receiver_new_Inr [of b q w rv g'] Inr rg Receiver_init_inv(3,4) [of b q "tape w" rv g']
    by auto
qed

lemma Sender_new_inv:
  assumes "Sender_new a q w = (Inr s, w')"
  shows "\<exists>sv. Sender_init a q (tape w) = Inr (sv, tape w') \<and>
           secret s = a \<and> q_val s = q \<and> n_val s = n_val sv \<and> delta_ref s = fresh w \<and>
           sender_at w' s = sv \<and>
           w' = w\<lparr>tape := tape w', heap := (heap w)(fresh w := delta sv), fresh := Suc (fresh w)\<rparr>"
proof (cases "Sender_init a q (tape w)")
  case (Inl e)
  then show ?thesis using assms by (simp add: Sender_new_Inl)
next
  case (Inr sg)
  obtain sv g' where sg: "sg = (sv, g')" by (cases sg)
  show ?thesis
    using assms Sender_new_Inr [of a q w sv g'] Inr sg Sender_init_inv(3,4) [of a q "tape w" sv g']
    by auto
qed

section \<open>The claims\<close>

text \<open>
  C1 (end-to-end correctness). For a prime modulus \<open>q\<close> and secrets \<open>a\<close>, \<open>b\<close> in
  \<open>[0, q)\<close>, the sender and the receiver are constructed, \<open>play\<close> returns a pair of
  shares, and the shares add up to \<open>a * b\<close> modulo \<open>q\<close>. The three tapes \<open>g1\<close>, \<open>g2\<close>
  and \<open>g3\<close> (the draws of the two constructors and of the run) are arbitrary, so this
  holds for every outcome of the sampling.
\<close>

theorem play_correct:
  assumes "is_prime q" and "0 \<le> a" and "a < q" and "0 \<le> b" and "b < q"
  shows "\<exists>s g1' r g2'.
           Sender_init a q g1 = Inr (s, g1') \<and> Receiver_init b q g2 = Inr (r, g2') \<and>
           (\<exists>p1 p2 g3'. play r s g3 = Inr ((p1, p2), g3') \<and> (p1 + p2) mod q = (a * b) mod q)"
proof -
  obtain s g1' where s: "Sender_init a q g1 = Inr (s, g1')"
    using Sender_init_succeeds [OF assms(1,3)] by blast
  obtain r g2' where r: "Receiver_init b q g2 = Inr (r, g2')"
    using Receiver_init_succeeds [OF assms(1,5)] by blast
  note si = Sender_init_inv [OF s] and ri = Receiver_init_inv [OF r]
  have "\<exists>p1 p2 g'. play r s g3 = Inr ((p1, p2), g') \<and>
           (p1 + p2) mod q_val s = (secret s * secret r) mod q_val s \<and>
           0 \<le> p1 \<and> p1 < q_val s \<and> 0 \<le> p2 \<and> p2 < q_val s"
  proof (rule play_shares)
    show "q_val r = q_val s" using si(4) ri(4) by simp
    show "0 < q_val s" using si(4) is_prime_gt_1 [OF assms(1)] by simp
    show "n_val s = int (length (delta s))" by (rule si(6))
    show "n_val r = int (length (t_val r))" by (rule ri(6))
    show "n_val r = n_val s" using si(8) ri(8) by simp
    show "0 < n_val r" by (rule ri(5))
    show "\<forall>t \<in> set (t_val r). t = 1 \<or> t = - 1" by (rule ri(7))
  qed
  then have "\<exists>p1 p2 g3'. play r s g3 = Inr ((p1, p2), g3') \<and> (p1 + p2) mod q = (a * b) mod q"
    using si(3,4) ri(3) by auto
  with s r show ?thesis by blast
qed

text \<open>C1 at \<open>q = 11\<close>, \<open>a = 3\<close>, \<open>b = 5\<close>: the shares add up to \<open>15 mod 11 = 4\<close>.\<close>

theorem play_correct_witness:
  "is_prime 11 \<and> (0::int) \<le> 3 \<and> (3::int) < 11 \<and> (0::int) \<le> 5 \<and> (5::int) < 11 \<and>
   (\<exists>s g1' r g2'.
      Sender_init 3 11 (\<lambda>i. int i) = Inr (s, g1') \<and>
      Receiver_init 5 11 (\<lambda>i. int i + 1) = Inr (r, g2') \<and>
      (\<exists>p1 p2 g3'. play r s (\<lambda>i. 7 * int i) = Inr ((p1, p2), g3') \<and> (p1 + p2) mod 11 = 4))"
  using play_correct [of 11 3 5 "\<lambda>i. int i" "\<lambda>i. int i + 1" "\<lambda>i. 7 * int i"] is_prime_11
  by simp

text \<open>
  C2 (reconstruction constraint). For a receiver constructed with a secret \<open>b\<close> in
  \<open>[0, q)\<close>, every call of \<open>v\<close> (on any tape \<open>h\<close>) returns a vector of \<open>n\<close> elements, as
  many as there are signs, and the sum of \<open>t[i] * v[i]\<close> over all \<open>i\<close> in \<open>range(n)\<close> is
  \<open>b\<close> modulo \<open>q\<close>; \<open>dot\<close>, the sum as the source writes it, is that sum. The
  constructor has checked that \<open>q\<close> is prime and \<open>b < q\<close>.
\<close>

theorem v_reconstruction:
  assumes "Receiver_init b q g = Inr (r, g')" and "0 \<le> b"
  shows "\<exists>vv h'. v r h = Inr (vv, h') \<and>
           int (length vv) = n_val r \<and> int (length (t_val r)) = n_val r \<and>
           dot (t_val r) vv mod q = b \<and>
           (\<Sum>i = 0..<nat (n_val r). t_val r ! i * vv ! i) mod q = b"
proof -
  note ri = Receiver_init_inv [OF assms(1)]
  have q: "0 < q_val r"
    using ri(4) is_prime_gt_1 [OF ri(1)] by simp
  obtain vv h' where vv: "v r h = Inr (vv, h')"
    using v_succeeds [OF q ri(6) ri(5)] by blast
  have len: "int (length vv) = n_val r"
    using v_range [OF q ri(6) ri(5) vv] by simp
  have "dot (t_val r) vv mod q_val r = secret r mod q_val r"
    by (rule v_dot [OF q ri(6) ri(5) ri(7) vv])
  then have d: "dot (t_val r) vv mod q = b"
    using ri(2,3,4) assms(2) by simp
  have "length (t_val r) = length vv" "nat (n_val r) = length (t_val r)"
    using len ri(6) by simp_all
  then have "dot (t_val r) vv = (\<Sum>i = 0..<nat (n_val r). t_val r ! i * vv ! i)"
    by (simp add: dot_sum_nth)
  with vv len d ri(6) show ?thesis by auto
qed

text \<open>C2 at \<open>q = 11\<close>, \<open>b = 5\<close>.\<close>

theorem v_reconstruction_witness:
  "\<exists>r g'. Receiver_init 5 11 (\<lambda>i. int i) = Inr (r, g') \<and> (0::int) \<le> 5 \<and>
     (\<exists>vv h'. v r (\<lambda>i. 3 * int i) = Inr (vv, h') \<and>
        length vv = 516 \<and> length (t_val r) = 516 \<and>
        dot (t_val r) vv mod 11 = 5 \<and>
        (\<Sum>i = 0..<516. t_val r ! i * vv ! i) mod 11 = 5)"
proof -
  obtain r g' where r: "Receiver_init 5 11 (\<lambda>i. int i) = Inr (r, g')"
    using Receiver_init_succeeds [OF is_prime_11, of 5 "\<lambda>i. int i"] by auto
  have n: "n_val r = 516"
    using Receiver_init_inv(8) [OF r] by (simp add: ceillog2_11 k_def)
  show ?thesis
    using r v_reconstruction [OF r, of "\<lambda>i. 3 * int i"] by (auto simp: n)
qed

text \<open>
  C3 (the answer of \<open>ot\<close>). For a constructed sender, an index \<open>i\<close> in \<open>[0, n)\<close> and a sign
  \<open>t\<close> that is \<open>1\<close> or \<open>-1\<close>, \<open>ot\<close> succeeds and returns \<open>(secret * t + delta[i]) mod q\<close>.
\<close>

theorem ot_answer:
  assumes "Sender_init a q g = Inr (s, g')" and "0 \<le> i" and "i < n_val s"
    and "t = 1 \<or> t = - 1"
  shows "ot s i t = Inr ((secret s * t + delta s ! nat i) mod q_val s)"
proof -
  note si = Sender_init_inv [OF assms(1)]
  have "q_val s \<noteq> 0"
    using si(4) is_prime_gt_1 [OF si(1)] by simp
  moreover have "i < int (length (delta s))"
    using assms(3) si(6) by simp
  ultimately show ?thesis
    using assms(2,4) by (intro ot_eq)
qed

text \<open>
  C3 at the sender of secret \<open>10\<close> over \<open>q = 11\<close> with the masks \<open>delta[i] = 2 * i mod 11\<close>,
  index \<open>2\<close>, sign \<open>-1\<close>: the answer is \<open>(-10 + 4) mod 11 = 5\<close>.
\<close>

theorem ot_answer_witness:
  "\<exists>s g'. Sender_init 10 11 (\<lambda>i. 2 * int i) = Inr (s, g') \<and> (0::int) \<le> 2 \<and> 2 < n_val s \<and>
     ((- 1::int) = 1 \<or> (- 1::int) = - 1) \<and>
     ot s 2 (- 1) = Inr ((secret s * (- 1) + delta s ! nat 2) mod q_val s) \<and>
     ot s 2 (- 1) = Inr 5"
proof -
  obtain s g' where s: "Sender_init 10 11 (\<lambda>i. 2 * int i) = Inr (s, g')"
    using Sender_init_succeeds [OF is_prime_11, of 10 "\<lambda>i. 2 * int i"] by auto
  have n: "2 < n_val s"
    using Sender_init_inv(8) [OF s] by (simp add: k_def)
  have d: "delta s ! 2 = 4" "secret s = 10" "q_val s = 11"
    using s by (simp_all add: Sender_init_Inr ceillog2_11 k_def)
  show ?thesis
    using s n ot_answer [OF s _ n, of "- 1"] by (auto simp: d)
qed

text \<open>
  C4 (construction validation). A modulus that is not prime makes every constructor
  fail with \<open>InvalidModulus\<close>, whatever the secret; a prime modulus with a secret
  \<open>\<ge> q\<close> makes every constructor fail with \<open>SecretOutOfRange\<close>.
\<close>

theorem init_validation:
  "(\<not> is_prime q \<longrightarrow>
      Player_init x q = Inl InvalidModulus \<and>
      Sender_init x q g = Inl InvalidModulus \<and>
      Receiver_init x q g = Inl InvalidModulus) \<and>
   (is_prime q \<and> q \<le> x \<longrightarrow>
      Player_init x q = Inl SecretOutOfRange \<and>
      Sender_init x q g = Inl SecretOutOfRange \<and>
      Receiver_init x q g = Inl SecretOutOfRange)"
  by (simp add: Player_init_def Sender_init_def Receiver_init_def)

text \<open>
  C4 at the composite modulus \<open>4\<close> with the secret \<open>7\<close> (also out of range), and at
  the prime modulus \<open>3\<close> with the secret \<open>5\<close>.
\<close>

theorem init_validation_witness:
  "\<not> is_prime 4 \<and>
   Player_init 7 4 = Inl InvalidModulus \<and>
   Sender_init 7 4 (\<lambda>i. int i) = Inl InvalidModulus \<and>
   Receiver_init 7 4 (\<lambda>i. int i) = Inl InvalidModulus \<and>
   is_prime 3 \<and> (3::int) \<le> 5 \<and>
   Player_init 5 3 = Inl SecretOutOfRange \<and>
   Sender_init 5 3 (\<lambda>i. int i) = Inl SecretOutOfRange \<and>
   Receiver_init 5 3 (\<lambda>i. int i) = Inl SecretOutOfRange"
  using init_validation [of 4 7 "\<lambda>i. int i"] init_validation [of 3 5 "\<lambda>i. int i"]
    not_is_prime_4 is_prime_3
  by simp

text \<open>
  C5 (query validation). For a constructed sender, \<open>ot\<close> fails with \<open>IndexOutOfRange\<close>
  when \<open>i \<ge> n\<close>, and with \<open>InvalidSign\<close> when \<open>i < n\<close> and the sign is neither \<open>1\<close> nor
  \<open>-1\<close>; a failure is a value \<open>Inl\<close>, which carries no answer.
\<close>

theorem ot_validation:
  assumes "Sender_init a q g = Inr (s, g')"
  shows "(n_val s \<le> i \<longrightarrow> ot s i t = Inl IndexOutOfRange) \<and>
         (i < n_val s \<and> t \<noteq> 1 \<and> t \<noteq> - 1 \<longrightarrow> ot s i t = Inl InvalidSign)"
  using Sender_init_inv(6) [OF assms] by (simp add: ot_def)

text \<open>
  C5 at the sender of secret \<open>10\<close> over \<open>q = 11\<close>: the index \<open>n\<close> with the sign \<open>-1\<close>, and
  the index \<open>0\<close> with the sign \<open>2\<close>.
\<close>

theorem ot_validation_witness:
  "\<exists>s g'. Sender_init 10 11 (\<lambda>i. 2 * int i) = Inr (s, g') \<and>
     n_val s \<le> n_val s \<and> ot s (n_val s) (- 1) = Inl IndexOutOfRange \<and>
     0 < n_val s \<and> (2::int) \<noteq> 1 \<and> (2::int) \<noteq> - 1 \<and> ot s 0 2 = Inl InvalidSign"
proof -
  obtain s g' where s: "Sender_init 10 11 (\<lambda>i. 2 * int i) = Inr (s, g')"
    using Sender_init_succeeds [OF is_prime_11, of 10 "\<lambda>i. 2 * int i"] by auto
  have n: "0 < n_val s"
    by (rule Sender_init_inv(5) [OF s])
  show ?thesis
    using s n ot_validation [OF s, of "n_val s" "- 1"] ot_validation [OF s, of 0 2] by auto
qed

lemma play_mismatch: "q_val r \<noteq> q_val s \<Longrightarrow> play r s g = Inl InvalidPairing"
  by (simp add: play_def)

text \<open>
  C6 (pairing validation). For a receiver and a sender constructed with different
  moduli, \<open>play\<close> fails with \<open>InvalidPairing\<close>, and the world after the failed run is the
  world before it: the tape has not moved, so nothing was drawn and \<open>v\<close> was not
  called; no list was built or written, so no share was computed from one; and the
  log of queries has not grown, so \<open>Sender.ot\<close> was not called.
\<close>

theorem play_pairing:
  assumes "Receiver_new b q w1 = (Inr r, w1')" and "Sender_new a q' w2 = (Inr s, w2')"
    and "q \<noteq> q'"
  shows "play_run r s w = (Inl InvalidPairing, w)"
proof -
  have "q_val r = q" using Receiver_new_inv [OF assms(1)] by blast
  moreover have "q_val s = q'" using Sender_new_inv [OF assms(2)] by blast
  ultimately show ?thesis
    using assms(3) by (simp add: play_run_def rraise_def)
qed

text \<open>
  C6 at the example of the source, run from the empty world: a receiver over \<open>13\<close>,
  then a sender over \<open>11\<close>; after the failed run the log is still empty.
\<close>

theorem play_pairing_witness:
  "\<exists>r w1 s w2. Receiver_new 5 13 world0 = (Inr r, w1) \<and> Sender_new 5 11 w1 = (Inr s, w2) \<and>
     (13::int) \<noteq> 11 \<and> play_run r s w2 = (Inl InvalidPairing, w2) \<and> queries w2 = []"
proof -
  obtain rv g1 where rv: "Receiver_init 5 13 (tape world0) = Inr (rv, g1)"
    using Receiver_init_succeeds [OF is_prime_13, of 5 "tape world0"] by auto
  obtain r w1 where r: "Receiver_new 5 13 world0 = (Inr r, w1)" and q1: "queries w1 = []"
    using Receiver_new_Inr [OF rv] by simp
  obtain sv g2 where sv: "Sender_init 5 11 (tape w1) = Inr (sv, g2)"
    using Sender_init_succeeds [OF is_prime_11, of 5 "tape w1"] by auto
  obtain s w2 where s: "Sender_new 5 11 w1 = (Inr s, w2)" and q2: "queries w2 = []"
    using Sender_new_Inr [OF sv] q1 by simp
  show ?thesis
    using r s q2 play_pairing [OF r s, of w2] by auto
qed

lemma Player_init_negative:
  "is_prime q \<Longrightarrow> x < 0 \<Longrightarrow>
   Player_init x q = Inr \<lparr>secret = x, q_val = q, n_val = int (ceillog2 (nat q)) + k\<rparr>"
  using is_prime_gt_1 [of q] by (simp add: Player_init_def)

lemma v_negative_secret:
  assumes "Receiver_init (- 1) 11 g = Inr (r, g')" and "v r h = Inr (vv, h')"
  shows "dot (t_val r) vv mod 11 = 10"
proof -
  note ri = Receiver_init_inv [OF assms(1)]
  have q: "0 < q_val r"
    using ri(4) by simp
  have "dot (t_val r) vv mod q_val r = secret r mod q_val r"
    by (rule v_dot [OF q ri(6) ri(5) ri(7) assms(2)])
  then show ?thesis
    using ri(3,4) by simp
qed

text \<open>
  C7 (negative secrets). The claim asks that a negative secret be rejected with
  \<open>SecretOutOfRange\<close>. \<open>Player.__init__\<close> compares the secret with \<open>q\<close> from above only:
  at the secret \<open>-1\<close> and the prime modulus \<open>11\<close> the three constructors succeed and
  store \<open>-1\<close>. (For such a receiver the vector of \<open>v\<close> reconstructs \<open>10\<close>, not the
  stored secret: lemma \<open>v_negative_secret\<close>.)
\<close>

theorem init_negative_secret_accepted:
  "Player_init (- 1) 11 = Inr \<lparr>secret = - 1, q_val = 11, n_val = 516\<rparr> \<and>
   (\<exists>s g'. Sender_init (- 1) 11 (\<lambda>i. int i) = Inr (s, g') \<and> secret s = - 1) \<and>
   (\<exists>r g'. Receiver_init (- 1) 11 (\<lambda>i. int i) = Inr (r, g') \<and> secret r = - 1)"
proof -
  have "Player_init (- 1) 11 = Inr \<lparr>secret = - 1, q_val = 11, n_val = 516\<rparr>"
    using Player_init_negative [OF is_prime_11, of "- 1"] by (simp add: ceillog2_11 k_def)
  moreover have "\<exists>s g'. Sender_init (- 1) 11 (\<lambda>i. int i) = Inr (s, g') \<and> secret s = - 1"
    using is_prime_11 by (simp add: Sender_init_Inr)
  moreover have "\<exists>r g'. Receiver_init (- 1) 11 (\<lambda>i. int i) = Inr (r, g') \<and> secret r = - 1"
    using is_prime_11 by (simp add: Receiver_init_Inr)
  ultimately show ?thesis by simp
qed

lemma ot_negative_index:
  assumes "Sender_init a q g = Inr (s, g')" and "i < 0" and "- n_val s \<le> i"
    and "t = 1 \<or> t = - 1"
  shows "ot s i t = ot s (i + n_val s) t"
proof -
  note si = Sender_init_inv [OF assms(1)]
  have q: "q_val s \<noteq> 0"
    using si(4) is_prime_gt_1 [OF si(1)] by simp
  have "ot s i t = Inr ((secret s * t + delta s ! nat (i + int (length (delta s)))) mod q_val s)"
    using assms(2,3,4) si(6) q by (intro ot_wrap) simp_all
  moreover have "ot s (i + n_val s) t = Inr ((secret s * t + delta s ! nat (i + n_val s)) mod q_val s)"
    using assms(2,3,4) si(6) q by (intro ot_eq) simp_all
  ultimately show ?thesis
    using si(6) by simp
qed

lemma ot_below_range:
  assumes "Sender_init a q g = Inr (s, g')" and "i < - n_val s" and "t = 1 \<or> t = - 1"
  shows "ot s i t = Inl IndexError"
  using assms(2,3) Sender_init_inv(5,6) [OF assms(1)] by (auto simp: ot_def py_index_def)

text \<open>
  C8 (negative indices). The claim asks that every index outside \<open>[0, n)\<close> surface an
  error. \<open>Sender.ot\<close> compares the index with \<open>len(self.delta)\<close> from above only, and
  Python's subscript counts a negative index from the end: for the sender of secret
  \<open>10\<close> over \<open>q = 11\<close> whose masks are \<open>delta[i] = i mod 11\<close>, the call \<open>ot(-1, 1)\<close>
  returns \<open>8\<close>, the answer of the last position \<open>n - 1 = 515\<close>, where \<open>ot(0, 1)\<close>
  returns \<open>10\<close>.
\<close>

theorem ot_negative_index_wraps:
  "\<exists>s g'. Sender_init 10 11 (\<lambda>i. int i) = Inr (s, g') \<and> n_val s = 516 \<and>
     ot s (- 1) 1 = Inr 8 \<and> ot s 515 1 = Inr 8 \<and> ot s 0 1 = Inr 10"
proof -
  obtain s g' where s: "Sender_init 10 11 (\<lambda>i. int i) = Inr (s, g')"
    using Sender_init_succeeds [OF is_prime_11, of 10 "\<lambda>i. int i"] by auto
  have n: "n_val s = 516"
    using s by (simp add: Sender_init_Inr ceillog2_11 k_def)
  have d: "delta s = map (\<lambda>i. int i mod 11) [0..<516]"
    using s by (simp add: Sender_init_Inr ceillog2_11 k_def)
  have f: "secret s = 10" "q_val s = 11"
    using s by (simp_all add: Sender_init_Inr)
  have "ot s (- 1) 1 = Inr 8"
    using ot_wrap [of "- 1" s 1] by (simp add: d f)
  moreover have "ot s 515 1 = Inr 8"
    using ot_eq [of 515 s 1] by (simp add: d f)
  moreover have "ot s 0 1 = Inr 10"
    using ot_eq [of 0 s 1] by (simp add: d f)
  ultimately show ?thesis
    using s n by blast
qed




text \<open>
  C10 (ranges). The masks of a constructed sender are \<open>n\<close> integers of \<open>[0, q)\<close>; for a
  constructed receiver, \<open>v\<close> returns on every tape a vector of \<open>n\<close> integers of
  \<open>[0, q)\<close>, the adjusted element included.
\<close>

theorem range_invariants:
  "(Sender_init a q g = Inr (s, g') \<longrightarrow>
      int (length (delta s)) = n_val s \<and> (\<forall>d \<in> set (delta s). 0 \<le> d \<and> d < q)) \<and>
   (Receiver_init b q g = Inr (r, g'') \<longrightarrow>
      (\<exists>vv h'. v r h = Inr (vv, h') \<and>
         int (length vv) = n_val r \<and> (\<forall>x \<in> set vv. 0 \<le> x \<and> x < q)))"
proof -
  have "int (length (delta s)) = n_val s \<and> (\<forall>d \<in> set (delta s). 0 \<le> d \<and> d < q)"
    if "Sender_init a q g = Inr (s, g')"
    using Sender_init_inv(6,7) [OF that] by simp
  moreover have "\<exists>vv h'. v r h = Inr (vv, h') \<and>
         int (length vv) = n_val r \<and> (\<forall>x \<in> set vv. 0 \<le> x \<and> x < q)"
    if r: "Receiver_init b q g = Inr (r, g'')"
  proof -
    note ri = Receiver_init_inv [OF r]
    have q: "0 < q_val r"
      using ri(4) is_prime_gt_1 [OF ri(1)] by simp
    obtain vv h' where vv: "v r h = Inr (vv, h')"
      using v_succeeds [OF q ri(6) ri(5)] by blast
    show ?thesis
      using vv v_range [OF q ri(6) ri(5) vv] ri(4) by auto
  qed
  ultimately show ?thesis by blast
qed

text \<open>C10 at the sender of secret \<open>3\<close> and the receiver of secret \<open>5\<close> over \<open>q = 11\<close>.\<close>

theorem range_invariants_witness:
  "(\<exists>s g'. Sender_init 3 11 (\<lambda>i. int i) = Inr (s, g') \<and>
      length (delta s) = 516 \<and> list_all (\<lambda>d. 0 \<le> d \<and> d < 11) (delta s)) \<and>
   (\<exists>r g''. Receiver_init 5 11 (\<lambda>i. int i) = Inr (r, g'') \<and>
      (\<exists>vv h'. v r (\<lambda>i. 3 * int i) = Inr (vv, h') \<and>
         length vv = 516 \<and> list_all (\<lambda>x. 0 \<le> x \<and> x < 11) vv))"
proof -
  obtain s g' where s: "Sender_init 3 11 (\<lambda>i. int i) = Inr (s, g')"
    using Sender_init_succeeds [OF is_prime_11, of 3 "\<lambda>i. int i"] by auto
  obtain r g'' where r: "Receiver_init 5 11 (\<lambda>i. int i) = Inr (r, g'')"
    using Receiver_init_succeeds [OF is_prime_11, of 5 "\<lambda>i. int i"] by auto
  have ns: "n_val s = 516"
    using Sender_init_inv(8) [OF s] by (simp add: ceillog2_11 k_def)
  have nr: "n_val r = 516"
    using Receiver_init_inv(8) [OF r] by (simp add: ceillog2_11 k_def)
  note inv = range_invariants [of 3 11 "\<lambda>i. int i" s g' 5 r g'' "\<lambda>i. 3 * int i"]
  have "length (delta s) = 516 \<and> list_all (\<lambda>d. 0 \<le> d \<and> d < 11) (delta s)"
    using inv s ns by (simp add: list_all_iff)
  moreover have "\<exists>vv h'. v r (\<lambda>i. 3 * int i) = Inr (vv, h') \<and>
         length vv = 516 \<and> list_all (\<lambda>x. 0 \<le> x \<and> x < 11) vv"
    using inv r nr by (auto simp: list_all_iff)
  ultimately show ?thesis
    using s r by blast
qed

end
